theory Spec2Isabelle
  imports Complex_Main
begin

section \<open>The frame-rate counter of \<open>common/utils.py\<close>\<close>

text \<open>
  \<open>class FPSCounter\<close> has three attributes: \<open>_start_time\<close> (a reading of
  \<open>time.time()\<close>), \<open>_frame_count\<close> (a Python \<open>int\<close>) and \<open>_fps\<close> (\<open>0\<close> at
  first, a quotient afterwards). Python's leading underscore is dropped from the
  first two names; the third is \<open>fps_attr\<close>, since \<open>fps\<close> is the property that
  reads it. Clock readings and the rate are modelled as \<open>real\<close> numbers, the
  frame count as an \<open>int\<close>. Every method that calls \<open>time.time()\<close> takes the
  value the clock returns as its argument \<open>current_time\<close>, and every method
  returns the updated object.
\<close>

record FPSCounter =
  start_time :: real
  frame_count :: int
  fps_attr :: real

text \<open>\<open>__init__\<close>: the three assignments, on whatever object it is handed.\<close>

definition init :: "real \<Rightarrow> FPSCounter \<Rightarrow> FPSCounter" where
  "init current_time self =
     self\<lparr>start_time := current_time, frame_count := 0, fps_attr := 0\<rparr>"

text \<open>The constructor call \<open>FPSCounter()\<close>: \<open>__init__\<close> on a new object.\<close>

definition create :: "real \<Rightarrow> FPSCounter" where
  "create current_time =
     \<lparr>start_time = current_time, frame_count = 0, fps_attr = 0\<rparr>"

text \<open>
  \<open>frame\<close>: the count is incremented before the clock is read; the division
  happens only under the guard \<open>elapsed_time >= 1.0\<close>, so its divisor is never
  zero.
\<close>

definition frame :: "real \<Rightarrow> FPSCounter \<Rightarrow> FPSCounter" where
  "frame current_time self =
     (let self1 = self\<lparr>frame_count := frame_count self + 1\<rparr>;
          elapsed_time = current_time - start_time self1
      in if elapsed_time \<ge> 1
         then self1\<lparr>fps_attr := of_int (frame_count self1) / elapsed_time,
                    start_time := current_time,
                    frame_count := 0\<rparr>
         else self1)"

text \<open>\<open>reset\<close> is the call \<open>self.__init__()\<close>.\<close>

definition reset :: "real \<Rightarrow> FPSCounter \<Rightarrow> FPSCounter" where
  "reset current_time self = init current_time self"

text \<open>
  The property \<open>fps\<close> returns the attribute; it is given the shape of the other
  methods (result and object afterwards), so that what it leaves alone can be
  stated.
\<close>

definition fps :: "FPSCounter \<Rightarrow> real \<times> FPSCounter" where
  "fps self = (fps_attr self, self)"

subsection \<open>Sequences of calls\<close>

text \<open>
  A call on an existing counter, with the clock reading it observes. A history
  is a list of calls applied from the left to a counter made by \<open>create\<close>.
\<close>

datatype call = Frame real | Reset real | Fps

fun step :: "FPSCounter \<Rightarrow> call \<Rightarrow> FPSCounter" where
  "step self (Frame t) = frame t self"
| "step self (Reset t) = reset t self"
| "step self Fps = snd (fps self)"

definition run :: "FPSCounter \<Rightarrow> call list \<Rightarrow> FPSCounter" where
  "run self cs = foldl step self cs"

text \<open>
  The two bounds the attributes are meant to respect.
\<close>

definition counter_inv :: "FPSCounter \<Rightarrow> bool" where
  "counter_inv self = (frame_count self \<ge> 0 \<and> fps_attr self \<ge> 0)"

text \<open>
  \<open>closes self c\<close>: the call \<open>c\<close>, made on \<open>self\<close>, is a \<open>frame\<close> call that
  observes an elapsed time of at least 1. \<open>no_close self cs\<close>: no call of the
  history \<open>cs\<close>, started on \<open>self\<close>, does.
\<close>

fun closes :: "FPSCounter \<Rightarrow> call \<Rightarrow> bool" where
  "closes self (Frame t) = (t - start_time self \<ge> 1)"
| "closes self (Reset t) = False"
| "closes self Fps = False"

fun no_close :: "FPSCounter \<Rightarrow> call list \<Rightarrow> bool" where
  "no_close self [] = True"
| "no_close self (c # cs) = (\<not> closes self c \<and> no_close (step self c) cs)"

section \<open>\<open>wait_for_file\<close>\<close>

text \<open>
  \<open>wait_for_file\<close> reads the clock, tests a path and sleeps. The three library
  calls act on a \<open>world\<close>: the clock's reading, the paths that exist at each
  instant (the other processes' doing, so a function of time), the log of the
  calls made so far, oldest first, and the time a clock read and an existence
  test take, in microseconds. A clock read and an existence test return what
  holds at their end; \<open>time.sleep\<close> takes the time it is asked for. With both
  costs 0 the clock is a scripted one that only \<open>time.sleep\<close> advances; with
  a positive cost two readings never tie.
\<close>

datatype syscall = TimeTime | PathExists string | TimeSleep real

definition usec :: "nat \<Rightarrow> real" where
  "usec n = real n / 1000000"

record world =
  clock :: real
  fs :: "real \<Rightarrow> string set"
  calls :: "syscall list"
  time_us :: nat
  exists_us :: nat

definition time_time :: "world \<Rightarrow> real \<times> world" where
  "time_time w =
     (let w' = w\<lparr>clock := clock w + usec (time_us w), calls := calls w @ [TimeTime]\<rparr>
      in (clock w', w'))"

definition path_exists :: "string \<Rightarrow> world \<Rightarrow> bool \<times> world" where
  "path_exists file w =
     (let w' = w\<lparr>clock := clock w + usec (exists_us w), calls := calls w @ [PathExists file]\<rparr>
      in (file \<in> fs w' (clock w'), w'))"

definition time_sleep :: "real \<Rightarrow> world \<Rightarrow> world" where
  "time_sleep secs w = w\<lparr>clock := clock w + secs, calls := calls w @ [TimeSleep secs]\<rparr>"

text \<open>
  The \<open>while\<close> loop: the existence test is the loop condition, the timeout is
  compared (strictly) inside the body, then the loop sleeps for half a time unit.
  Each round moves the clock by at least 1/2, so the elapsed time passes any
  timeout and the loop ends.
\<close>

function wait_loop :: "string \<Rightarrow> int \<Rightarrow> real \<Rightarrow> world \<Rightarrow> bool \<times> world" where
  "wait_loop file timeout start_time' w =
     (case path_exists file w of (found, w1) \<Rightarrow>
        if found then (True, w1)
        else (case time_time w1 of (now, w2) \<Rightarrow>
                if now - start_time' > of_int timeout then (False, w2)
                else wait_loop file timeout start_time' (time_sleep (1 / 2) w2)))"
  by pat_completeness auto
termination
proof (relation "measure (\<lambda>(file, timeout, start_time', w).
          nat (\<lceil>2 * (of_int timeout - (clock w - start_time'))\<rceil> + 1))", goal_cases)
  case 1
  show ?case by simp
next
  case (2 path timeout start_time' w found w1 now w2)
  define a where "a = usec (exists_us w)"
  define b where "b = usec (time_us w)"
  have nonneg: "0 \<le> a" "0 \<le> b"
    by (simp_all add: a_def b_def usec_def)
  from 2 have c: "clock w2 = clock w + a + b"
    and le: "clock w + a + b - start_time' \<le> of_int timeout"
    by (auto simp: path_exists_def time_time_def Let_def a_def b_def)
  define x where "x = 2 * (of_int timeout - (clock w - start_time'))"
  define y where "y = 2 * (of_int timeout - (clock (time_sleep (1 / 2) w2) - start_time'))"
  have "y = x - 1 - 2 * (a + b)"
    by (simp add: time_sleep_def c x_def y_def)
  with nonneg have "y \<le> x - 1"
    by simp
  then have "\<lceil>y\<rceil> \<le> \<lceil>x - 1\<rceil>"
    by (rule ceiling_mono)
  then have after: "\<lceil>y\<rceil> \<le> \<lceil>x\<rceil> - 1"
    by simp
  have "0 \<le> x"
    using le nonneg by (simp add: x_def)
  then have "0 \<le> \<lceil>x\<rceil>"
    by simp
  with after have "nat (\<lceil>y\<rceil> + 1) < nat (\<lceil>x\<rceil> + 1)"
    by simp
  then show ?case
    unfolding in_measure prod.case x_def y_def .
qed

declare wait_loop.simps [simp del]

definition wait_for_file :: "string \<Rightarrow> int \<Rightarrow> world \<Rightarrow> bool \<times> world" where
  "wait_for_file file timeout w =
     (case time_time w of (start_time', w0) \<Rightarrow> wait_loop file timeout start_time' w0)"

text \<open>
  The instants of a run that starts in \<open>w\<close>. A round of the loop (test, clock
  read, sleep) takes \<open>round_time w\<close>. The \<open>k\<close>-th existence test, counted from
  0, looks at the file system at \<open>poll_time w k\<close>, and the clock read that
  follows it shows \<open>elapsed_after_poll w k\<close> since \<open>start_time\<close>.
\<close>

definition round_time :: "world \<Rightarrow> real" where
  "round_time w = usec (exists_us w) + usec (time_us w) + 1 / 2"

definition poll_time :: "world \<Rightarrow> nat \<Rightarrow> real" where
  "poll_time w k = clock w + usec (time_us w) + usec (exists_us w) + real k * round_time w"

definition elapsed_after_poll :: "world \<Rightarrow> nat \<Rightarrow> real" where
  "elapsed_after_poll w j = usec (exists_us w) + usec (time_us w) + real j * round_time w"

text \<open>
  The sentence of the specification, in its own words: the result is true exactly
  when the path existed at some poll before the timeout elapsed, that is at a
  poll made no later than \<open>timeout\<close> after \<open>start_time\<close>. Polls are at least 0.5
  apart, so only the polls \<open>0, \<dots>, 2 * timeout\<close> can be that early.
\<close>

definition spec_wait_for_file :: "string \<Rightarrow> int \<Rightarrow> world \<Rightarrow> bool" where
  "spec_wait_for_file file timeout w =
     list_ex (\<lambda>k. poll_time w k - (clock w + usec (time_us w)) \<le> of_int timeout
                  \<and> file \<in> fs w (poll_time w k))
       [0 ..< nat (2 * timeout + 1)]"

text \<open>A file system for the examples: one path, which exists from \<open>t0\<close> on.\<close>

definition appears_at :: "string \<Rightarrow> real \<Rightarrow> real \<Rightarrow> string set" where
  "appears_at file t0 t = (if t0 \<le> t then {file} else {})"

section \<open>\<open>install_root_cert\<close>\<close>

text \<open>
  The exceptions the modelled calls can raise.
\<close>

datatype exn = CalledProcessError int "string list" | IndexError

text \<open>
  \<open>subprocess.run\<close> returns a \<open>CompletedProcess\<close>. The external command itself
  is the parameter \<open>exec\<close>: what the operating system answers to a command
  line. The flag \<open>check\<close> is the library's: with \<open>check=True\<close> a return code
  other than 0 raises \<open>CalledProcessError\<close> instead of returning.
\<close>

record CompletedProcess =
  args :: "string list"
  returncode :: int
  stdout :: string
  stderr :: string

definition subprocess_run ::
  "(string list \<Rightarrow> CompletedProcess) \<Rightarrow> string list \<Rightarrow> bool \<Rightarrow> exn + CompletedProcess" where
  "subprocess_run exec cmd check =
     (let result = exec cmd
      in if check \<and> returncode result \<noteq> 0
         then Inl (CalledProcessError (returncode result) cmd)
         else Inr result)"

text \<open>
  \<open>install_root_cert\<close>, with \<open>sys.platform\<close> as its first argument. The two
  supported branches differ in the command line and in \<open>check\<close>; the test of
  the return code after them is shared. The message printed in the last branch
  is left out.
\<close>

definition install_root_cert ::
  "string \<Rightarrow> (string list \<Rightarrow> CompletedProcess) \<Rightarrow> string \<Rightarrow> exn + bool \<times> string" where
  "install_root_cert platform exec cert_file =
     (let ran =
        (if platform = ''win32'' then
           Some (subprocess_run exec [''certutil'', ''-addstore'', ''Root'', cert_file] False)
         else if platform = ''darwin'' then
           Some (subprocess_run exec
             [''sudo'', ''security'', ''add-trusted-cert'', ''-d'', ''-r'', ''trustRoot'',
              ''-k'', ''/Library/Keychains/System.keychain'', cert_file] True)
         else None)
      in case ran of
           None \<Rightarrow> Inr (False, '''')
         | Some (Inl e) \<Rightarrow> Inl e
         | Some (Inr result) \<Rightarrow>
             if returncode result = 0 then Inr (True, stdout result)
             else Inr (False, stdout result))"

text \<open>A command for the examples: it prints \<open>denied\<close> and exits with code 1.\<close>

definition exit_1 :: "string list \<Rightarrow> CompletedProcess" where
  "exit_1 cmd = \<lparr>args = cmd, returncode = 1, stdout = ''denied'', stderr = []\<rparr>"

section \<open>\<open>random_str\<close>\<close>

text \<open>The constants of Python's \<open>string\<close> module.\<close>

definition ascii_lowercase :: string where
  "ascii_lowercase = ''abcdefghijklmnopqrstuvwxyz''"

definition ascii_uppercase :: string where
  "ascii_uppercase = ''ABCDEFGHIJKLMNOPQRSTUVWXYZ''"

definition ascii_letters :: string where
  "ascii_letters = ascii_lowercase @ ascii_uppercase"

definition digits :: string where
  "digits = ''0123456789''"

text \<open>
  A Python \<open>str\<close> used as a sequence yields its characters as strings of length
  one. \<open>random.choices(population, k=k)\<close> draws \<open>k\<close> items with replacement, each
  at an index below \<open>len(population)\<close>; a \<open>k\<close> below 1 gives the empty list, and
  an empty population with a positive \<open>k\<close> raises \<open>IndexError\<close>. The generator
  is the parameter \<open>rng\<close>, the numbers it yields from its current state on; the
  \<open>i\<close>-th draw takes the item at \<open>rng i\<close> reduced to an index. \<open>sep.join\<close> puts
  \<open>sep\<close> between the items.
\<close>

definition items :: "string \<Rightarrow> string list" where
  "items s = map (\<lambda>c. [c]) s"

definition random_choices :: "(nat \<Rightarrow> nat) \<Rightarrow> 'a list \<Rightarrow> int \<Rightarrow> exn + 'a list" where
  "random_choices rng population k =
     (if population = [] \<and> 0 < k then Inl IndexError
      else Inr (map (\<lambda>i. population ! (rng i mod length population)) [0 ..< nat k]))"

fun join :: "string \<Rightarrow> string list \<Rightarrow> string" where
  "join sep [] = []"
| "join sep [x] = x"
| "join sep (x # y # ys) = x @ sep @ join sep (y # ys)"

definition random_str :: "(nat \<Rightarrow> nat) \<Rightarrow> int \<Rightarrow> exn + string" where
  "random_str rng len =
     (case random_choices rng (items (ascii_letters @ digits)) len of
        Inl e \<Rightarrow> Inl e
      | Inr chosen \<Rightarrow> Inr (join '''' chosen))"

text \<open>
  The ASCII letters and the decimal digits, by character code: \<open>A\<close> to \<open>Z\<close> are
  65 to 90, \<open>a\<close> to \<open>z\<close> are 97 to 122, \<open>0\<close> to \<open>9\<close> are 48 to 57.
\<close>

definition is_ascii_letter :: "char \<Rightarrow> bool" where
  "is_ascii_letter c =
     (let n = (of_char c :: nat) in (65 \<le> n \<and> n \<le> 90) \<or> (97 \<le> n \<and> n \<le> 122))"

definition is_decimal_digit :: "char \<Rightarrow> bool" where
  "is_decimal_digit c = (let n = (of_char c :: nat) in 48 \<le> n \<and> n \<le> 57)"

text \<open>A generator for the examples.\<close>

definition sample_rng :: "nat \<Rightarrow> nat" where
  "sample_rng i = 7 * i + 3"

section \<open>Properties of the frame-rate counter\<close>

lemma run_Nil: "run self [] = self"
  by (simp add: run_def)

lemma run_Cons: "run self (c # cs) = run (step self c) cs"
  by (simp add: run_def)

text \<open>
  C1. \<open>frame\<close> at clock reading \<open>now\<close>: when \<open>now - start_time\<close> is at least 1,
  the rate becomes the incremented count divided by the elapsed time, the window
  starts at \<open>now\<close> and the count is 0; otherwise the count is one more than before
  and nothing else changes.
\<close>

theorem frame_spec:
  "(now - start_time self \<ge> 1 \<longrightarrow>
      frame now self =
        self\<lparr>start_time := now, frame_count := 0,
             fps_attr := of_int (frame_count self + 1) / (now - start_time self)\<rparr>)
   \<and> (now - start_time self < 1 \<longrightarrow>
      frame now self = self\<lparr>frame_count := frame_count self + 1\<rparr>)"
  by (simp add: frame_def Let_def)

theorem frame_spec_witness:
  "frame 3 \<lparr>start_time = 1, frame_count = 4, fps_attr = 7\<rparr>
     = \<lparr>start_time = 3, frame_count = 0, fps_attr = 5 / 2\<rparr>
   \<and> frame (3 / 2) \<lparr>start_time = 1, frame_count = 4, fps_attr = 7\<rparr>
     = \<lparr>start_time = 1, frame_count = 5, fps_attr = 7\<rparr>"
  using frame_spec [of 3 "\<lparr>start_time = 1, frame_count = 4, fps_attr = 7\<rparr>"]
        frame_spec [of "3 / 2" "\<lparr>start_time = 1, frame_count = 4, fps_attr = 7\<rparr>"]
  by simp

text \<open>
  C2. \<open>reset\<close> at clock reading \<open>t\<close> leaves any counter in the state \<open>create\<close>
  produces at \<open>t\<close>, and the rate read right after it is 0.
\<close>

theorem reset_is_create:
  "reset t self = create t
   \<and> start_time (reset t self) = t
   \<and> frame_count (reset t self) = 0
   \<and> fps_attr (reset t self) = 0
   \<and> fst (fps (reset t self)) = 0"
  by (simp add: reset_def init_def create_def fps_def)

subsection \<open>The invariant\<close>

lemma counter_inv_create: "counter_inv (create t)"
  by (simp add: counter_inv_def create_def)

lemma counter_inv_frame:
  assumes "counter_inv self"
  shows "counter_inv (frame t self)"
proof (cases "t - start_time self \<ge> 1")
  case True
  from assms have "0 \<le> real_of_int (frame_count self + 1)"
    by (simp add: counter_inv_def)
  moreover from True have "0 < t - start_time self"
    by linarith
  ultimately have "0 \<le> real_of_int (frame_count self + 1) / (t - start_time self)"
    by (simp only: divide_nonneg_pos)
  with True show ?thesis
    by (simp add: counter_inv_def frame_def Let_def)
next
  case False
  with assms show ?thesis
    by (simp add: counter_inv_def frame_def Let_def)
qed

lemma counter_inv_step:
  "counter_inv self \<Longrightarrow> counter_inv (step self c)"
proof (cases c)
  case (Frame t)
  assume "counter_inv self"
  with Frame show ?thesis by (simp add: counter_inv_frame)
next
  case (Reset t)
  then show ?thesis by (simp add: reset_def init_def counter_inv_def)
next
  case Fps
  assume "counter_inv self"
  with Fps show ?thesis by (simp add: fps_def)
qed

lemma counter_inv_run:
  "counter_inv self \<Longrightarrow> counter_inv (run self cs)"
proof (induction cs arbitrary: self)
  case Nil
  then show ?case by (simp add: run_Nil)
next
  case (Cons c cs)
  from Cons.prems have "counter_inv (step self c)"
    by (rule counter_inv_step)
  then have "counter_inv (run (step self c) cs)"
    by (rule Cons.IH)
  then show ?case by (simp add: run_Cons)
qed

text \<open>
  C3. The bounds \<open>frame_count \<ge> 0\<close> and \<open>fps_attr \<ge> 0\<close> hold for a new counter,
  every call keeps them whatever clock reading it observes, and so they hold
  after the first \<open>n\<close> calls of every history, for every \<open>n\<close>.
\<close>

theorem counter_invariant:
  "counter_inv (create t0)
   \<and> (counter_inv self \<longrightarrow> counter_inv (step self c))
   \<and> counter_inv (run (create t0) (take n cs))
   \<and> 0 \<le> frame_count (run (create t0) (take n cs))
   \<and> 0 \<le> fps_attr (run (create t0) (take n cs))"
proof -
  have r: "counter_inv (run (create t0) (take n cs))"
    by (rule counter_inv_run) (rule counter_inv_create)
  then have "0 \<le> frame_count (run (create t0) (take n cs))"
    and "0 \<le> fps_attr (run (create t0) (take n cs))"
    by (simp_all only: counter_inv_def)
  moreover have "counter_inv self \<longrightarrow> counter_inv (step self c)"
    using counter_inv_step by blast
  ultimately show ?thesis
    using r counter_inv_create by blast
qed

theorem counter_invariant_witness:
  "counter_inv \<lparr>start_time = 0, frame_count = 2, fps_attr = 3\<rparr>
   \<and> counter_inv (step \<lparr>start_time = 0, frame_count = 2, fps_attr = 3\<rparr> (Frame 6))
   \<and> counter_inv (run (create 0) (take 2 [Frame 2, Reset 1, Frame (-4)]))"
proof -
  have h: "counter_inv \<lparr>start_time = 0, frame_count = 2, fps_attr = 3\<rparr>"
    by (simp add: counter_inv_def)
  with counter_invariant
    [of 0 "\<lparr>start_time = 0, frame_count = 2, fps_attr = 3\<rparr>" "Frame 6" 2
        "[Frame 2, Reset 1, Frame (-4)]"]
  show ?thesis by simp
qed

subsection \<open>When the rate changes\<close>

lemma run_replicate_Fps: "run self (replicate n Fps) = self"
  by (induction n) (simp_all add: run_Nil run_Cons fps_def)

lemma quiet_step:
  "\<not> closes self c \<Longrightarrow> \<forall>t. c \<noteq> Reset t \<Longrightarrow> fps_attr (step self c) = fps_attr self"
  by (cases c) (simp_all add: frame_def Let_def fps_def)

lemma quiet_run:
  "no_close self cs \<Longrightarrow> \<forall>t. Reset t \<notin> set cs \<Longrightarrow> fps_attr (run self cs) = fps_attr self"
proof (induction cs arbitrary: self)
  case Nil
  show ?case by (simp add: run_Nil)
next
  case (Cons c cs)
  from Cons.prems have open_window: "\<not> closes self c" and rest: "no_close (step self c) cs"
    by simp_all
  from Cons.prems have no_reset: "\<forall>t. c \<noteq> Reset t" and later: "\<forall>t. Reset t \<notin> set cs"
    by auto
  from rest later have "fps_attr (run (step self c) cs) = fps_attr (step self c)"
    by (rule Cons.IH)
  also from open_window no_reset have "\<dots> = fps_attr self"
    by (rule quiet_step)
  finally show ?case by (simp add: run_Cons)
qed

text \<open>
  C4, as amended. A \<open>frame\<close> call that observes an elapsed time below 1 leaves
  the rate and the window start as they were and adds one to the count. Reading
  the rate returns the object unchanged, so repeated reads return the same
  value. A call changes the rate only when it is a \<open>frame\<close> call that observes
  an elapsed time of at least 1, or a \<open>reset\<close>; so the rate reads the same
  before and after every history that has neither.
\<close>

theorem rate_only_changes_on_close:
  "(now - start_time self < 1 \<longrightarrow>
      fps_attr (frame now self) = fps_attr self
      \<and> start_time (frame now self) = start_time self
      \<and> frame_count (frame now self) = frame_count self + 1)
   \<and> snd (fps self) = self
   \<and> fst (fps (snd (fps self))) = fst (fps self)
   \<and> run self (replicate n Fps) = self
   \<and> fst (fps (run self (replicate n Fps))) = fst (fps self)
   \<and> (fps_attr (step self c) \<noteq> fps_attr self \<longrightarrow> closes self c \<or> (\<exists>t. c = Reset t))
   \<and> (no_close self cs \<and> (\<forall>t. Reset t \<notin> set cs) \<longrightarrow>
        fst (fps (run self cs)) = fst (fps self))"
proof -
  have one: "fps_attr (step self c) \<noteq> fps_attr self \<longrightarrow> closes self c \<or> (\<exists>t. c = Reset t)"
    using quiet_step [of self c] by blast
  have many: "no_close self cs \<and> (\<forall>t. Reset t \<notin> set cs) \<longrightarrow>
        fst (fps (run self cs)) = fst (fps self)"
    using quiet_run [of self cs] by (simp add: fps_def)
  have "(now - start_time self < 1 \<longrightarrow>
      fps_attr (frame now self) = fps_attr self
      \<and> start_time (frame now self) = start_time self
      \<and> frame_count (frame now self) = frame_count self + 1)
   \<and> snd (fps self) = self
   \<and> fst (fps (snd (fps self))) = fst (fps self)
   \<and> run self (replicate n Fps) = self
   \<and> fst (fps (run self (replicate n Fps))) = fst (fps self)"
    by (simp add: frame_def Let_def fps_def run_replicate_Fps)
  with one many show ?thesis
    by blast
qed

text \<open>
  At the counter with window start 1, count 4 and rate 7: a \<open>frame\<close> call at
  1.5 only adds to the count, and the rate still reads 7 after a history of
  reads and \<open>frame\<close> calls that never observes an elapsed time of 1.
\<close>

theorem rate_only_changes_on_close_witness:
  "(3 / 2 :: real) - 1 < 1
   \<and> frame (3 / 2) \<lparr>start_time = 1, frame_count = 4, fps_attr = 7\<rparr>
       = \<lparr>start_time = 1, frame_count = 5, fps_attr = 7\<rparr>
   \<and> no_close \<lparr>start_time = 1, frame_count = 4, fps_attr = 7\<rparr>
        [Frame (3 / 2), Fps, Frame (19 / 10)]
   \<and> fst (fps (run \<lparr>start_time = 1, frame_count = 4, fps_attr = 7\<rparr>
        [Frame (3 / 2), Fps, Frame (19 / 10)])) = 7"
proof -
  let ?s = "\<lparr>start_time = 1, frame_count = 4, fps_attr = 7\<rparr>"
  let ?cs = "[Frame (3 / 2), Fps, Frame (19 / 10)]"
  note inst = rate_only_changes_on_close [of "3 / 2" ?s 0 "Frame (3 / 2)" ?cs]
  have pre: "3 / 2 - start_time ?s < 1"
    by simp
  have quiet: "no_close ?s ?cs"
    by (simp add: frame_def fps_def)
  have no_reset: "\<forall>t. Reset t \<notin> set ?cs"
    by simp
  from inst pre have "fps_attr (frame (3 / 2) ?s) = fps_attr ?s
      \<and> start_time (frame (3 / 2) ?s) = start_time ?s
      \<and> frame_count (frame (3 / 2) ?s) = frame_count ?s + 1"
    by blast
  then have a: "frame (3 / 2) ?s = \<lparr>start_time = 1, frame_count = 5, fps_attr = 7\<rparr>"
    by (cases "frame (3 / 2) ?s") simp
  from inst quiet no_reset have "fst (fps (run ?s ?cs)) = fst (fps ?s)"
    by blast
  then have b: "fst (fps (run ?s ?cs)) = 7"
    by (simp add: fps_def)
  from a b quiet show ?thesis
    by simp
qed

text \<open>
  C4, as stated, fails. A counter created at 0 with one \<open>frame\<close> call at 2
  reads 1/2; after a \<open>reset\<close>, which is not a \<open>frame\<close> call, it reads 0.
\<close>

theorem reset_changes_rate:
  "fst (fps (run (create 0) [Frame 2, Fps])) = 1 / 2
   \<and> fst (fps (run (create 0) [Frame 2, Fps, Reset 3, Fps])) = 0
   \<and> \<not> closes (run (create 0) [Frame 2, Fps]) (Reset 3)"
  by (simp add: run_Cons run_Nil create_def frame_def fps_def reset_def init_def)

subsection \<open>The rate before the first window closes\<close>

lemma no_close_step:
  "\<not> closes self c \<Longrightarrow> fps_attr self = 0 \<Longrightarrow> fps_attr (step self c) = 0"
  by (cases c) (simp_all add: frame_def Let_def reset_def init_def fps_def)

lemma no_close_run:
  "no_close self cs \<Longrightarrow> fps_attr self = 0 \<Longrightarrow> fps_attr (run self cs) = 0"
proof (induction cs arbitrary: self)
  case Nil
  then show ?case by (simp add: run_Nil)
next
  case (Cons c cs)
  from Cons.prems have "\<not> closes self c" and rest: "no_close (step self c) cs"
    by simp_all
  with Cons.prems have "fps_attr (step self c) = 0"
    by (simp add: no_close_step)
  with rest have "fps_attr (run (step self c) cs) = 0"
    by (rule Cons.IH)
  then show ?case by (simp add: run_Cons)
qed

lemma no_frame_no_close:
  "(\<forall>t. Frame t \<notin> set cs) \<Longrightarrow> no_close self cs"
proof (induction cs arbitrary: self)
  case Nil
  show ?case by simp
next
  case (Cons c cs)
  then have "\<not> closes self c"
    by (cases c) auto
  moreover from Cons have "no_close (step self c) cs"
    by simp
  ultimately show ?case by simp
qed

text \<open>
  C5. A new counter has rate 0 and reads 0. The rate still reads 0 after every
  history in which no \<open>frame\<close> call observes an elapsed time of at least 1, so
  in particular after every history with no \<open>frame\<close> call at all, and after a
  single \<open>frame\<close> call half a time unit after the creation.
\<close>

theorem rate_zero_until_close:
  "fps_attr (create t0) = 0
   \<and> fst (fps (create t0)) = 0
   \<and> (no_close (create t0) cs \<longrightarrow> fst (fps (run (create t0) cs)) = 0)
   \<and> ((\<forall>t. Frame t \<notin> set cs) \<longrightarrow> fst (fps (run (create t0) cs)) = 0)
   \<and> fst (fps (run (create t0) [Frame (t0 + 1 / 2)])) = 0
   \<and> fst (fps (run (create 0) [Frame (1 / 2)])) = 0"
proof -
  have zero: "fps_attr (create t) = 0" for t
    by (simp add: create_def)
  have quiet: "no_close (create t0) ds \<longrightarrow> fst (fps (run (create t0) ds)) = 0" for ds
    by (simp add: fps_def no_close_run zero)
  have half: "no_close (create t) [Frame (t + 1 / 2)]" for t
    by (simp add: create_def)
  have "fst (fps (run (create t) [Frame (t + 1 / 2)])) = 0" for t
    using half [of t] by (simp add: fps_def no_close_run zero)
  from this [of t0] this [of 0] quiet [of cs] zero [of t0] show ?thesis
    by (auto simp: fps_def dest: no_frame_no_close)
qed

theorem rate_zero_until_close_witness:
  "no_close (create 0) [Frame (3 / 10), Fps, Frame (9 / 10), Reset 5, Frame (11 / 2)]
   \<and> fst (fps (run (create 0) [Frame (3 / 10), Fps, Frame (9 / 10), Reset 5, Frame (11 / 2)])) = 0
   \<and> fst (fps (run (create 0) [Fps, Reset 2, Fps])) = 0"
proof -
  have h: "no_close (create 0) [Frame (3 / 10), Fps, Frame (9 / 10), Reset 5, Frame (11 / 2)]"
    by (simp add: create_def frame_def fps_def reset_def init_def)
  have g: "\<forall>t. Frame t \<notin> set [Fps, Reset 2, Fps]"
    by simp
  from h rate_zero_until_close
    [of 0 "[Frame (3 / 10), Fps, Frame (9 / 10), Reset 5, Frame (11 / 2)]"]
  have "fst (fps (run (create 0) [Frame (3 / 10), Fps, Frame (9 / 10), Reset 5, Frame (11 / 2)])) = 0"
    by blast
  moreover from g rate_zero_until_close [of 0 "[Fps, Reset 2, Fps]"]
  have "fst (fps (run (create 0) [Fps, Reset 2, Fps])) = 0"
    by blast
  ultimately show ?thesis
    using h by blast
qed

subsection \<open>Ten ticks\<close>

text \<open>
  C6. A counter created at time 0 and given one \<open>frame\<close> call at each of the
  times 0.1, 0.2, ..., 1.0: after the first nine calls the count is 9 and the
  rate still 0; the tenth observes an elapsed time of 1 and leaves the rate at
  10, the count at 0 and the window start at 1.
\<close>

theorem ten_ticks:
  "run (create 0)
     [Frame (1 / 10), Frame (2 / 10), Frame (3 / 10), Frame (4 / 10), Frame (5 / 10),
      Frame (6 / 10), Frame (7 / 10), Frame (8 / 10), Frame (9 / 10), Frame 1]
     = \<lparr>start_time = 1, frame_count = 0, fps_attr = 10\<rparr>
   \<and> run (create 0)
     [Frame (1 / 10), Frame (2 / 10), Frame (3 / 10), Frame (4 / 10), Frame (5 / 10),
      Frame (6 / 10), Frame (7 / 10), Frame (8 / 10), Frame (9 / 10)]
     = \<lparr>start_time = 0, frame_count = 9, fps_attr = 0\<rparr>"
  by (simp add: run_Cons run_Nil create_def frame_def)

section \<open>Properties of \<open>install_root_cert\<close>\<close>

lemma install_root_cert_win32:
  "install_root_cert ''win32'' exec cert_file =
     Inr (returncode (exec [''certutil'', ''-addstore'', ''Root'', cert_file]) = 0,
          stdout (exec [''certutil'', ''-addstore'', ''Root'', cert_file]))"
  by (simp add: install_root_cert_def subprocess_run_def Let_def)

lemma install_root_cert_unsupported:
  "platform \<noteq> ''win32'' \<Longrightarrow> platform \<noteq> ''darwin'' \<Longrightarrow>
     install_root_cert platform exec cert_file = Inr (False, '''')"
  by (simp add: install_root_cert_def)

lemma install_root_cert_darwin_ok:
  "returncode (exec [''sudo'', ''security'', ''add-trusted-cert'', ''-d'', ''-r'', ''trustRoot'',
        ''-k'', ''/Library/Keychains/System.keychain'', cert_file]) = 0 \<Longrightarrow>
   install_root_cert ''darwin'' exec cert_file =
     Inr (True, stdout (exec [''sudo'', ''security'', ''add-trusted-cert'', ''-d'', ''-r'',
        ''trustRoot'', ''-k'', ''/Library/Keychains/System.keychain'', cert_file]))"
  by (simp add: install_root_cert_def subprocess_run_def Let_def)

text \<open>
  C7. On \<open>darwin\<close>, with a command that exits with code 1, \<open>install_root_cert\<close>
  does not return the pair of \<open>False\<close> and the command's output: it raises
  \<open>CalledProcessError\<close>, since that branch runs the command with \<open>check=True\<close>.
  On \<open>win32\<close> the same command gives the pair.
\<close>

theorem install_root_cert_darwin_raises:
  "install_root_cert ''darwin'' exit_1 ''ca.pem'' =
     Inl (CalledProcessError 1
       [''sudo'', ''security'', ''add-trusted-cert'', ''-d'', ''-r'', ''trustRoot'',
        ''-k'', ''/Library/Keychains/System.keychain'', ''ca.pem''])
   \<and> install_root_cert ''win32'' exit_1 ''ca.pem'' = Inr (False, ''denied'')"
  by (simp add: install_root_cert_def subprocess_run_def exit_1_def)

section \<open>Properties of \<open>wait_for_file\<close>\<close>

lemma usec_nonneg: "0 \<le> usec n"
  by (simp add: usec_def)

lemma wait_loop_polls:
  "fst (wait_loop path timeout start_time' w) \<longleftrightarrow>
     (\<exists>k::nat. path \<in> fs w (clock w + usec (exists_us w) + real k * round_time w)
        \<and> (\<forall>j<k. clock w + usec (exists_us w) + usec (time_us w) + real j * round_time w
                    - start_time' \<le> of_int timeout))"
proof (induction path timeout start_time' w rule: wait_loop.induct)
  case (1 path timeout start_time' w)
  define a where "a = usec (exists_us w)"
  define b where "b = usec (time_us w)"
  define D where "D = round_time w"
  have D: "D = a + b + 1 / 2"
    by (simp add: D_def round_time_def a_def b_def)
  let ?w1 = "snd (path_exists path w)"
  let ?w2 = "snd (time_time ?w1)"
  let ?w' = "time_sleep (1 / 2) ?w2"
  let ?R = "\<lambda>c k. path \<in> fs w (c + a + real k * D)
        \<and> (\<forall>j<k. c + a + b + real j * D - start_time' \<le> of_int timeout)"
  have found: "fst (path_exists path w) \<longleftrightarrow> path \<in> fs w (clock w + a)"
    by (simp add: path_exists_def Let_def a_def)
  have now: "fst (time_time ?w1) = clock w + a + b"
    by (simp add: path_exists_def time_time_def Let_def a_def b_def)
  have w': "clock ?w' = clock w + D" "fs ?w' = fs w"
    "exists_us ?w' = exists_us w" "time_us ?w' = time_us w" "round_time ?w' = D"
    by (simp_all add: time_sleep_def time_time_def path_exists_def Let_def D a_def b_def
          round_time_def)
  have goal: "fst (wait_loop path timeout start_time' w) \<longleftrightarrow> (\<exists>k. ?R (clock w) k)"
  proof (cases "path \<in> fs w (clock w + a)")
    case True
    then have "fst (wait_loop path timeout start_time' w)"
      by (subst wait_loop.simps) (simp add: case_prod_beta found)
    moreover from True have "?R (clock w) 0"
      by simp
    ultimately show ?thesis by blast
  next
    case absent: False
    show ?thesis
    proof (cases "clock w + a + b - start_time' > of_int timeout")
      case True
      with absent have "\<not> fst (wait_loop path timeout start_time' w)"
        by (subst wait_loop.simps) (simp add: case_prod_beta found now)
      moreover have "\<not> ?R (clock w) k" for k
      proof (cases k)
        case 0
        with absent show ?thesis by simp
      next
        case (Suc k')
        with True show ?thesis by force
      qed
      ultimately show ?thesis by blast
    next
      case False
      from absent False
      have unfold: "wait_loop path timeout start_time' w = wait_loop path timeout start_time' ?w'"
        by (subst wait_loop.simps) (simp add: case_prod_beta found now)
      have "fst (wait_loop path timeout start_time' ?w') \<longleftrightarrow>
          (\<exists>k::nat. path \<in> fs ?w' (clock ?w' + usec (exists_us ?w') + real k * round_time ?w')
            \<and> (\<forall>j<k. clock ?w' + usec (exists_us ?w') + usec (time_us ?w')
                  + real j * round_time ?w' - start_time' \<le> of_int timeout))"
        using absent False found now
        by (intro "1.IH" [of "fst (path_exists path w)" ?w1 "fst (time_time ?w1)" ?w2])
           (simp_all add: prod_eq_iff)
      then have IH: "fst (wait_loop path timeout start_time' ?w') \<longleftrightarrow> (\<exists>k. ?R (clock w + D) k)"
        by (simp only: w' a_def [symmetric] b_def [symmetric])
      have shift: "?R (clock w + D) k \<longleftrightarrow> ?R (clock w) (Suc k)" for k
      proof -
        have m: "(\<forall>j<Suc k. clock w + a + b + real j * D - start_time' \<le> of_int timeout)
            \<longleftrightarrow> (\<forall>j<k. clock w + a + b + real (Suc j) * D - start_time' \<le> of_int timeout)"
          using False by (auto simp: less_Suc_eq_0_disj)
        have e1: "clock w + D + a + real k * D = clock w + a + real (Suc k) * D"
          by (simp add: algebra_simps)
        have e2: "clock w + D + a + b + real j * D - start_time'
            = clock w + a + b + real (Suc j) * D - start_time'" for j
          by (simp add: algebra_simps)
        show ?thesis
          by (simp only: e1 e2 m)
      qed
      have "(\<exists>k. ?R (clock w) k) \<longleftrightarrow> (\<exists>k. ?R (clock w) (Suc k))"
      proof
        assume "\<exists>k. ?R (clock w) k"
        then obtain k where k: "?R (clock w) k" ..
        with absent have "k \<noteq> 0" by (cases k) auto
        then obtain k' where "k = Suc k'" by (cases k) auto
        with k show "\<exists>k. ?R (clock w) (Suc k)" by blast
      qed blast
      with IH shift unfold show ?thesis by simp
    qed
  qed
  then show ?case
    by (simp only: a_def b_def D_def)
qed

lemma wait_for_file_iff:
  "fst (wait_for_file path timeout w) \<longleftrightarrow>
     (\<exists>k::nat. path \<in> fs w (poll_time w k)
        \<and> (\<forall>j<k. elapsed_after_poll w j \<le> of_int timeout))"
proof -
  let ?w0 = "snd (time_time w)"
  have w0: "clock ?w0 = clock w + usec (time_us w)" "fs ?w0 = fs w"
    "exists_us ?w0 = exists_us w" "time_us ?w0 = time_us w" "round_time ?w0 = round_time w"
    by (simp_all add: time_time_def Let_def round_time_def)
  have "wait_for_file path timeout w
      = wait_loop path timeout (clock w + usec (time_us w)) ?w0"
    by (simp add: wait_for_file_def time_time_def Let_def)
  then have "fst (wait_for_file path timeout w) \<longleftrightarrow>
     (\<exists>k::nat. path \<in> fs w (clock w + usec (time_us w) + usec (exists_us w) + real k * round_time w)
        \<and> (\<forall>j<k. clock w + usec (time_us w) + usec (exists_us w) + usec (time_us w)
              + real j * round_time w - (clock w + usec (time_us w)) \<le> of_int timeout))"
    by (simp only: wait_loop_polls w0)
  moreover have "clock w + usec (time_us w) + usec (exists_us w) + usec (time_us w)
              + real j * round_time w - (clock w + usec (time_us w)) = elapsed_after_poll w j" for j
    by (simp add: elapsed_after_poll_def)
  ultimately show ?thesis
    by (simp only: poll_time_def)
qed

lemma round_time_ge: "1 / 2 \<le> round_time w"
  using usec_nonneg [of "exists_us w"] usec_nonneg [of "time_us w"]
  by (simp add: round_time_def)

lemma spec_wait_for_file_iff:
  "spec_wait_for_file path timeout w \<longleftrightarrow>
     (\<exists>k::nat. poll_time w k - (clock w + usec (time_us w)) \<le> of_int timeout
        \<and> path \<in> fs w (poll_time w k))"
proof -
  have "k < nat (2 * timeout + 1)"
    if "poll_time w k - (clock w + usec (time_us w)) \<le> of_int timeout" for k :: nat
  proof -
    have "real k * (1 / 2) \<le> real k * round_time w"
      by (intro mult_left_mono round_time_ge) simp
    also have "\<dots> \<le> poll_time w k - (clock w + usec (time_us w))"
      using usec_nonneg [of "exists_us w"] by (simp add: poll_time_def)
    finally have "real k \<le> 2 * real_of_int timeout"
      using that by simp
    then have "real_of_int (int k) \<le> real_of_int (2 * timeout)"
      by simp
    then have "int k \<le> 2 * timeout"
      by (simp only: of_int_le_iff)
    then show ?thesis by linarith
  qed
  then show ?thesis
    by (auto simp: spec_wait_for_file_def list_ex_iff)
qed

lemma wait_for_file_unfold:
  "wait_for_file path timeout w =
     wait_loop path timeout (clock w + usec (time_us w)) (snd (time_time w))"
  by (simp add: wait_for_file_def time_time_def Let_def)

lemma appears_at_iff: "path \<in> appears_at path t0 t \<longleftrightarrow> t0 \<le> t"
  by (simp add: appears_at_def)



text \<open>
  A poll can come after the timeout: it follows a sleep, and the sleep follows
  a clock read that was within the timeout. With a clock read that takes a
  microsecond and timeout 5, the read after the poll at 4.5 shows 4.50001, so
  the loop sleeps and polls again at 5.000011; a path that appears at 5.000005
  is found there.
\<close>

lemma wait_for_file_poll_after_timeout:
  "fst (wait_for_file ''f'' 5
         \<lparr>clock = 0, fs = appears_at ''f'' (5000005 / 1000000), calls = [],
            time_us = 1, exists_us = 0\<rparr>)
   \<and> \<not> spec_wait_for_file ''f'' 5
         \<lparr>clock = 0, fs = appears_at ''f'' (5000005 / 1000000), calls = [],
            time_us = 1, exists_us = 0\<rparr>"
proof
  let ?w = "\<lparr>clock = 0, fs = appears_at ''f'' (5000005 / 1000000), calls = [],
              time_us = 1, exists_us = 0\<rparr>"
  have poll: "poll_time ?w k = 1 / 1000000 + real k * (500001 / 1000000)" for k
    by (simp add: poll_time_def round_time_def usec_def)
  have read: "elapsed_after_poll ?w j = 1 / 1000000 + real j * (500001 / 1000000)" for j
    by (simp add: elapsed_after_poll_def round_time_def usec_def)
  have files: "fs ?w = appears_at ''f'' (5000005 / 1000000)"
    by simp
  have start: "clock ?w + usec (time_us ?w) = 1 / 1000000"
    by (simp add: usec_def)
  have early: "\<forall>j<10. elapsed_after_poll ?w j \<le> of_int 5"
  proof (intro allI impI)
    fix j :: nat
    assume "j < 10"
    then have "real j \<le> 9" by simp
    then have "real j * (500001 / 1000000) \<le> 9 * (500001 / 1000000)"
      by (intro mult_right_mono) simp_all
    then show "elapsed_after_poll ?w j \<le> of_int 5"
      unfolding read by simp
  qed
  have "''f'' \<in> fs ?w (poll_time ?w 10)"
    unfolding files poll appears_at_iff by simp
  with early show "fst (wait_for_file ''f'' 5 ?w)"
    unfolding wait_for_file_iff by (intro exI [where x = 10] conjI)
  show "\<not> spec_wait_for_file ''f'' 5 ?w"
  proof
    assume "spec_wait_for_file ''f'' 5 ?w"
    then obtain k where soon: "poll_time ?w k - (clock ?w + usec (time_us ?w)) \<le> of_int 5"
      and here: "''f'' \<in> fs ?w (poll_time ?w k)"
      unfolding spec_wait_for_file_iff by (elim exE conjE)
    from soon have a: "real k * (500001 / 1000000) \<le> 5"
      unfolding start poll by simp
    from here have b: "5000005 / 1000000 \<le> 1 / 1000000 + real k * (500001 / 1000000)"
      unfolding files poll appears_at_iff .
    have "k < 10"
    proof (rule ccontr)
      assume "\<not> k < 10"
      then have "10 \<le> real k" by simp
      then have "10 * (500001 / 1000000) \<le> real k * (500001 / 1000000)"
        by (intro mult_right_mono) simp_all
      with a show False by simp
    qed
    then have "real k \<le> 9" by simp
    then have "real k * (500001 / 1000000) \<le> 9 * (500001 / 1000000)"
      by (intro mult_right_mono) simp_all
    with b show False by simp
  qed
qed


text \<open>
  C10. When the path exists at the first test, \<open>wait_for_file\<close> returns \<open>True\<close>
  whatever the timeout, zero and negative ones included. The only calls made
  are the clock read that sets \<open>start_time\<close> and one existence test, and the
  clock has moved by what these two take: no sleep, and no second clock read to
  compare with the timeout. On a clock where the two take no time the first
  test is at the call, and the world is unchanged but for the log.
\<close>

theorem wait_for_file_present:
  "(path \<in> fs w (clock w + usec (time_us w) + usec (exists_us w)) \<longrightarrow>
      wait_for_file path timeout w =
        (True, w\<lparr>clock := clock w + usec (time_us w) + usec (exists_us w),
                  calls := calls w @ [TimeTime, PathExists path]\<rparr>))
   \<and> (time_us w = 0 \<and> exists_us w = 0 \<and> path \<in> fs w (clock w) \<longrightarrow>
      wait_for_file path timeout w =
        (True, w\<lparr>calls := calls w @ [TimeTime, PathExists path]\<rparr>))"
proof -
  have "wait_for_file path timeout w =
        (True, w\<lparr>clock := clock w + usec (time_us w) + usec (exists_us w),
                  calls := calls w @ [TimeTime, PathExists path]\<rparr>)"
    if "path \<in> fs w (clock w + usec (time_us w) + usec (exists_us w))"
    using that unfolding wait_for_file_unfold
    by (subst wait_loop.simps) (simp add: time_time_def path_exists_def Let_def)
  then show ?thesis
    by (simp add: usec_def)
qed

theorem wait_for_file_present_witness:
  "wait_for_file ''f'' (- 3)
       \<lparr>clock = 0, fs = appears_at ''f'' 0, calls = [], time_us = 1, exists_us = 2\<rparr>
     = (True, \<lparr>clock = 3 / 1000000, fs = appears_at ''f'' 0,
               calls = [TimeTime, PathExists ''f''], time_us = 1, exists_us = 2\<rparr>)
   \<and> wait_for_file ''f'' 0
       \<lparr>clock = 7, fs = appears_at ''f'' 0, calls = [], time_us = 0, exists_us = 0\<rparr>
     = (True, \<lparr>clock = 7, fs = appears_at ''f'' 0,
               calls = [TimeTime, PathExists ''f''], time_us = 0, exists_us = 0\<rparr>)"
proof -
  let ?w = "\<lparr>clock = 0, fs = appears_at ''f'' 0, calls = [], time_us = 1, exists_us = 2\<rparr>"
  let ?v = "\<lparr>clock = 7, fs = appears_at ''f'' 0, calls = [], time_us = 0, exists_us = 0\<rparr>"
  have h: "''f'' \<in> fs ?w (clock ?w + usec (time_us ?w) + usec (exists_us ?w))"
    by (simp add: appears_at_iff usec_def)
  have g: "time_us ?v = 0 \<and> exists_us ?v = 0 \<and> ''f'' \<in> fs ?v (clock ?v)"
    by (simp add: appears_at_iff)
  from h wait_for_file_present [of "''f''" ?w "- 3"]
  have "wait_for_file ''f'' (- 3) ?w =
        (True, ?w\<lparr>clock := clock ?w + usec (time_us ?w) + usec (exists_us ?w),
                  calls := calls ?w @ [TimeTime, PathExists ''f'']\<rparr>)"
    by blast
  moreover from g wait_for_file_present [of "''f''" ?v 0]
  have "wait_for_file ''f'' 0 ?v = (True, ?v\<lparr>calls := calls ?v @ [TimeTime, PathExists ''f'']\<rparr>)"
    by blast
  ultimately show ?thesis
    by (simp add: usec_def)
qed

section \<open>Properties of \<open>random_str\<close>\<close>

lemma alphabet_chars:
  "\<forall>c \<in> set (ascii_letters @ digits). is_ascii_letter c \<or> is_decimal_digit c"
  by (simp add: ascii_letters_def ascii_lowercase_def ascii_uppercase_def digits_def
        is_ascii_letter_def is_decimal_digit_def)

lemma join_empty_items: "join '''' (map (\<lambda>c. [c]) cs) = cs"
  by (induction cs rule: induct_list012) simp_all


lemma random_choices_items:
  "random_choices rng (items (ascii_letters @ digits)) n =
     Inr (map (\<lambda>i. [(ascii_letters @ digits) ! (rng i mod 62)]) [0 ..< nat n])"
proof -
  define population where "population = ascii_letters @ digits"
  have len: "length population = 62"
    by (simp add: population_def ascii_letters_def ascii_lowercase_def ascii_uppercase_def
          digits_def)
  then have nonempty: "map (\<lambda>c. [c]) population \<noteq> []"
    by auto
  have "map (\<lambda>c. [c]) population ! (rng i mod 62) = [population ! (rng i mod 62)]" for i
    by (simp add: len)
  then have "random_choices rng (items population) n =
      Inr (map (\<lambda>i. [population ! (rng i mod 62)]) [0 ..< nat n])"
    using nonempty by (simp add: random_choices_def items_def len)
  then show ?thesis
    by (simp only: population_def)
qed

lemma random_str_eq:
  "random_str rng n = Inr (map (\<lambda>i. (ascii_letters @ digits) ! (rng i mod 62)) [0 ..< nat n])"
proof -
  have "map (\<lambda>i. [(ascii_letters @ digits) ! (rng i mod 62)]) [0 ..< nat n]
      = map (\<lambda>c. [c]) (map (\<lambda>i. (ascii_letters @ digits) ! (rng i mod 62)) [0 ..< nat n])"
    by simp
  then show ?thesis
    by (simp only: random_str_def random_choices_items sum.case join_empty_items)
qed

text \<open>
  C9. For a length \<open>n\<close> (a number that is not negative) \<open>random_str\<close> raises
  nothing and returns a string of exactly \<open>n\<close> characters, each of them one of
  the 62 characters of \<open>ascii_letters + digits\<close>, which are ASCII letters and
  decimal digits.
\<close>

theorem random_str_spec:
  "0 \<le> n \<Longrightarrow>
     \<exists>s. random_str rng n = Inr s \<and> int (length s) = n
       \<and> (\<forall>c \<in> set s. c \<in> set (ascii_letters @ digits))
       \<and> (\<forall>c \<in> set s. is_ascii_letter c \<or> is_decimal_digit c)"
proof -
  assume n: "0 \<le> n"
  let ?s = "map (\<lambda>i. (ascii_letters @ digits) ! (rng i mod 62)) [0 ..< nat n]"
  have len: "length (ascii_letters @ digits) = 62"
    by (simp add: ascii_letters_def ascii_lowercase_def ascii_uppercase_def digits_def)
  have mem: "c \<in> set (ascii_letters @ digits)" if "c \<in> set ?s" for c
  proof -
    from that obtain i where "c = (ascii_letters @ digits) ! (rng i mod 62)"
      by auto
    moreover have "rng i mod 62 < length (ascii_letters @ digits)"
      unfolding len by simp
    ultimately show ?thesis
      by (simp only: nth_mem)
  qed
  have "int (length ?s) = n"
    using n by simp
  moreover have "\<forall>c \<in> set ?s. c \<in> set (ascii_letters @ digits)"
    using mem by blast
  moreover have "\<forall>c \<in> set ?s. is_ascii_letter c \<or> is_decimal_digit c"
    using mem alphabet_chars by blast
  ultimately show ?thesis
    using random_str_eq [of rng n] by blast
qed

theorem random_str_spec_witness:
  "(0::int) \<le> 3 \<and> random_str sample_rng 3 = Inr ''dkr''"
proof -
  have h: "(0::int) \<le> 3" by simp
  from random_str_spec [OF h, of sample_rng]
  obtain s where s: "random_str sample_rng 3 = Inr s" "int (length s) = 3"
    by blast
  have "random_str sample_rng 3 = Inr ''dkr''"
    by code_simp
  with s h show ?thesis by simp
qed

end
